theory Spec2Isabelle
  imports Main "HOL-Library.Multiset" "HOL-Library.Word"
begin

section \<open>The IPC handlers of the main process\<close>

text \<open>
  The handlers registered by \<open>initializeIpcHandlers\<close> are asynchronous functions: each
  returns a promise that is either fulfilled with a value or rejected with a reason.
  A settled promise is a value of a sum type, \<open>Inl\<close> the rejection reason and \<open>Inr\<close>
  the value; a promise that is still pending is \<open>None\<close>.
\<close>

type_synonym path = string

type_synonym ('e, 'r) settled = "'e + 'r"

subsection \<open>The path-existence handler\<close>

text \<open>
  \<open>fs.access(filePath)\<close> fulfils when the path is accessible and rejects with an error
  object otherwise; the handler reads the error's \<open>code\<close> property, which a system error
  carries (\<open>ENOENT\<close>, \<open>EACCES\<close>, ...) and other errors may lack.
\<close>

record fs_error =
  code :: "string option"
  message :: string

text \<open>
  \<^verbatim>\<open>
  handle(PATH_EXISTS_CHANNEL, async (evt, filePath: string) => {
    try {
      await fs.access(filePath);
    } catch (e) {
      if (e.code !== "ENOENT") {
        log.error(e);
      }
      return false;
    }
    return true;
  });
  \<close>
  The probe is a parameter. The handler returns its promise's outcome together with the
  errors it handed to \<open>log.error\<close>.
\<close>

definition path_exists :: "(path \<Rightarrow> fs_error option) \<Rightarrow> path \<Rightarrow> (fs_error, bool) settled \<times> fs_error list" where
  "path_exists access filePath =
     (case access filePath of
        Some e \<Rightarrow> (Inr False, if code e \<noteq> Some ''ENOENT'' then [e] else [])
      | None \<Rightarrow> (Inr True, []))"

subsection \<open>The concurrency limiter\<close>

text \<open>
  Both scan handlers create a limiter with \<open>pLimit(2)\<close> and wrap every folder's scan
  in \<open>limit(...)\<close>. The limiter is the \<open>p-limit\<close> package, a dependency of the
  repository that the handlers load with \<open>import * as pLimit from "p-limit"\<close> (its
  CommonJS releases, version 3). It keeps a FIFO queue of waiting tasks and a count of
  running ones (\<open>activeCount\<close>, here the length of \<open>active\<close>):
  \<^item> \<open>limit(fn)\<close> only enqueues the task, and schedules a check for the next microtask;
  \<^item> that check (\<open>start_check\<close>) starts the head of the queue if
    \<open>activeCount < concurrency\<close> and the queue is not empty;
  \<^item> when a running task settles, fulfilled or rejected alike, \<open>next()\<close> lowers the
    count and starts the head of the queue, if any (\<open>settle\<close>).

  A task is the position of its promise in the \<open>tasks\<close> array with the folder it
  scans. The state of one handler call is the limiter's queue, the running tasks, and
  the promises settled so far, in the order they settled.
\<close>

type_synonym task = "nat \<times> path"

record ('e, 'r) batch =
  queue :: "task list"
  active :: "task list"
  settled :: "(nat \<times> ('e, 'r) settled) list"

definition concurrency :: nat where
  "concurrency = 2"

definition dequeue :: "('e, 'r) batch \<Rightarrow> ('e, 'r) batch" where
  "dequeue s = (case queue s of [] \<Rightarrow> s | t # q \<Rightarrow> s\<lparr>queue := q, active := active s @ [t]\<rparr>)"

definition limit :: "task \<Rightarrow> ('e, 'r) batch \<Rightarrow> ('e, 'r) batch" where
  "limit t s = s\<lparr>queue := queue s @ [t]\<rparr>"

definition start_check :: "('e, 'r) batch \<Rightarrow> ('e, 'r) batch" where
  "start_check s = (if length (active s) < concurrency \<and> queue s \<noteq> [] then dequeue s else s)"

definition outcome :: "(path \<Rightarrow> ('e, 'r) settled) \<Rightarrow> task \<Rightarrow> nat \<times> ('e, 'r) settled" where
  "outcome scan t = (fst t, scan (snd t))"

definition settle :: "(path \<Rightarrow> ('e, 'r) settled) \<Rightarrow> task \<Rightarrow> ('e, 'r) batch \<Rightarrow> ('e, 'r) batch" where
  "settle scan t s =
     (let s' = s\<lparr>active := remove1 t (active s), settled := settled s @ [outcome scan t]\<rparr>
      in if queue s' \<noteq> [] then dequeue s' else s')"

text \<open>
  What a state holds of every task submitted so far: the outcome it has settled with or,
  while it waits or runs, will settle with.
\<close>

definition accounted :: "(path \<Rightarrow> ('e, 'r) settled) \<Rightarrow> ('e, 'r) batch \<Rightarrow> (nat \<times> ('e, 'r) settled) multiset" where
  "accounted scan s = mset (map (outcome scan) (queue s @ active s)) + mset (settled s)"

text \<open>
  \<open>map(filePaths, (folder) => limit(...))\<close> runs synchronously: it enqueues the folders
  in input order, and nothing is started meanwhile. \<open>submit\<close> lists the states it
  passes through.
\<close>

fun submit :: "task list \<Rightarrow> ('e, 'r) batch \<Rightarrow> ('e, 'r) batch list" where
  "submit [] s = [s]"
| "submit (t # ts) s = s # submit ts (limit t s)"

text \<open>
  Then the microtasks run, one check per \<open>limit\<close> call, in the order of the calls and
  before any scan can settle. \<open>start_checks\<close> lists the states they pass through.
\<close>

fun start_checks :: "nat \<Rightarrow> ('e, 'r) batch \<Rightarrow> ('e, 'r) batch list" where
  "start_checks 0 s = [s]"
| "start_checks (Suc n) s = s # start_checks n (start_check s)"

text \<open>
  After that the event loop settles the running scans one at a time. Which of the running
  scans settles next depends on the file system's timing; the schedule \<open>sched\<close> decides
  it (the next entry, modulo the number of running tasks; the oldest when the schedule
  is used up). \<open>drain\<close> lists the states passed through until nothing is running.
\<close>

definition pick :: "nat list \<Rightarrow> 'a list \<Rightarrow> 'a" where
  "pick sched ts = ts ! (case sched of [] \<Rightarrow> 0 | k # _ \<Rightarrow> k mod length ts)"

function drain :: "(path \<Rightarrow> ('e, 'r) settled) \<Rightarrow> nat list \<Rightarrow> ('e, 'r) batch \<Rightarrow> ('e, 'r) batch list" where
  "drain scan sched s =
     (if active s = [] then [s]
      else s # drain scan (tl sched) (settle scan (pick sched (active s)) s))"
  by pat_completeness auto

termination drain
proof (relation "measure (\<lambda>(scan, sched, s). length (queue s) + length (active s))")
  show "wf (measure (\<lambda>(scan, sched, s). length (queue s) + length (active s)))"
    by simp
next
  fix scan :: "path \<Rightarrow> ('e, 'r) settled" and sched :: "nat list" and s :: "('e, 'r) batch"
  assume running: "active s \<noteq> []"
  define t where "t = pick sched (active s)"
  have t_in: "t \<in> set (active s)"
    using running by (simp add: t_def pick_def split: list.split)
  then have "0 < length (active s)"
    by (cases "active s") auto
  then have "length (queue (settle scan t s)) + length (active (settle scan t s))
             < length (queue s) + length (active s)"
    using t_in by (cases "queue s") (simp_all add: settle_def dequeue_def Let_def length_remove1)
  then show "((scan, tl sched, settle scan (pick sched (active s)) s), (scan, sched, s))
             \<in> measure (\<lambda>(scan, sched, s). length (queue s) + length (active s))"
    by (simp add: t_def)
qed

declare drain.simps [simp del]

text \<open>
  One handler call: the states of the synchronous \<open>map\<close> and of its microtasks
  (\<open>startup_trace\<close>), the state they leave (\<open>started\<close>), and from there the states in
  which scans run and settle (\<open>running_trace\<close>).
\<close>

definition startup_trace :: "path list \<Rightarrow> ('e, 'r) batch list" where
  "startup_trace filePaths =
     (let tasks = zip [0..<length filePaths] filePaths;
          submitted = submit tasks \<lparr>queue = [], active = [], settled = []\<rparr>
      in butlast submitted @ butlast (start_checks (length tasks) (last submitted)))"

definition started :: "path list \<Rightarrow> ('e, 'r) batch" where
  "started filePaths =
     (let tasks = zip [0..<length filePaths] filePaths;
          submitted = submit tasks \<lparr>queue = [], active = [], settled = []\<rparr>
      in last (start_checks (length tasks) (last submitted)))"

definition running_trace :: "(path \<Rightarrow> ('e, 'r) settled) \<Rightarrow> nat list \<Rightarrow> path list \<Rightarrow> ('e, 'r) batch list" where
  "running_trace scan sched filePaths = drain scan sched (started filePaths)"

definition scan_trace :: "(path \<Rightarrow> ('e, 'r) settled) \<Rightarrow> nat list \<Rightarrow> path list \<Rightarrow> ('e, 'r) batch list" where
  "scan_trace scan sched filePaths = startup_trace filePaths @ running_trace scan sched filePaths"

subsection \<open>Promise.all and the two scan handlers\<close>

text \<open>
  \<open>Promise.all(tasks)\<close> rejects with the reason of the first of its promises to reject,
  in the order they settle; it fulfils, with the values in the order of the \<open>tasks\<close>
  array, once every promise has fulfilled; until then it is pending.
\<close>

fun first_rejection :: "(nat \<times> ('e, 'r) settled) list \<Rightarrow> 'e option" where
  "first_rejection [] = None"
| "first_rejection ((i, Inl e) # rest) = Some e"
| "first_rejection ((i, Inr r) # rest) = first_rejection rest"

definition fulfilled_value :: "(nat \<times> ('e, 'r) settled) list \<Rightarrow> nat \<Rightarrow> 'r option" where
  "fulfilled_value outcomes i = (case map_of outcomes i of Some (Inr r) \<Rightarrow> Some r | _ \<Rightarrow> None)"

definition promise_all :: "nat \<Rightarrow> (nat \<times> ('e, 'r) settled) list \<Rightarrow> ('e, 'r list) settled option" where
  "promise_all n outcomes =
     (case first_rejection outcomes of
        Some e \<Rightarrow> Some (Inl e)
      | None \<Rightarrow> map_option Inr (those (map (fulfilled_value outcomes) [0..<n])))"

text \<open>
  The body the two handlers share: a limiter of two, one limited task per folder, and
  \<open>Promise.all\<close> over the tasks.
  \<^verbatim>\<open>
  const limit = pLimit(2);
  const tasks = map(filePaths, (folder) => limit(() => new ...FolderScanner(...).scanFolder(...)));
  return await Promise.all(tasks);
  \<close>
  The folder scanner (\<open>CurseFolderScanner\<close>, \<open>WowUpFolderScanner\<close>) is the parameter
  \<open>scan\<close>: for each folder, the outcome its \<open>scanFolder\<close> promise settles with, a
  rejection or a result. Every scan is taken to settle.
\<close>

definition get_scan_results :: "(path \<Rightarrow> ('e, 'r) settled) \<Rightarrow> nat list \<Rightarrow> path list \<Rightarrow> ('e, 'r list) settled option" where
  "get_scan_results scan sched filePaths =
     promise_all (length filePaths) (settled (last (scan_trace scan sched filePaths)))"

text \<open>
  \<open>WOWUP_GET_SCAN_RESULTS\<close> is that body. \<open>CURSE_GET_SCAN_RESULTS\<close> wraps it in
  \<^verbatim>\<open>try { ... } catch (e) { log.error("Failed during curse scan", e); throw e; }\<close>
  and so returns the same outcome, with one line logged when it is a rejection.
\<close>

definition wowup_get_scan_results :: "(path \<Rightarrow> ('e, 'r) settled) \<Rightarrow> nat list \<Rightarrow> path list \<Rightarrow> ('e, 'r list) settled option" where
  "wowup_get_scan_results scan sched filePaths = get_scan_results scan sched filePaths"

definition curse_get_scan_results :: "(path \<Rightarrow> ('e, 'r) settled) \<Rightarrow> nat list \<Rightarrow> path list \<Rightarrow> ('e, 'r list) settled option \<times> (string \<times> 'e) list" where
  "curse_get_scan_results scan sched filePaths =
     (case get_scan_results scan sched filePaths of
        Some (Inl e) \<Rightarrow> (Some (Inl e), [(''Failed during curse scan'', e)])
      | out \<Rightarrow> (out, []))"

section \<open>The catalog folder scanner\<close>

text \<open>
  Modelled from the spec: \<open>CurseFolderScanner.scanFolder\<close>, which the
  \<open>CURSE_GET_SCAN_RESULTS\<close> handler calls for each folder, is imported from
  \<open>src/common/curse/curse-folder-scanner\<close> and is not among the sources. The model
  follows the spec's data model (section 3) and the algorithm of its section 4.4:
  enumerate the files, keep the ContentFiles by the extension allow-list, read,
  normalize and hash each one, sort the hashes ascending and hash the sorted sequence,
  recompute the alternates under the alternate inclusion filters, read the descriptor,
  return the aggregate. What the spec fixes only as an external contract (the
  allow-list, the normalizer with its file-type hint, the two hash functions, the
  alternate filters) is the record \<open>hashing_scheme\<close>; the TocReader is the parameter
  \<open>read_toc\<close>.
\<close>

datatype scan_error = NotFound | IoError | ParseError

text \<open>A file as the recursive enumeration finds it; \<open>bytes\<close> is \<open>None\<close> when reading it fails.\<close>

record folder_file =
  rel_path :: string
  bytes :: "string option"
  mtime :: nat

record toc_descriptor =
  toc_name :: string
  toc_version :: string
  game_versions :: "string list"
  declared_files :: "string list"

type_synonym file_fingerprint = "string \<times> 32 word"

record catalog_scan_result =
  folder :: path
  fingerprint :: "32 word"
  alternates :: "32 word list"
  toc :: "toc_descriptor option"
  file_fingerprints :: "file_fingerprint list"

record hashing_scheme =
  allow_list :: "string list"
  normalize_text :: "string \<Rightarrow> string \<Rightarrow> string"
  hashBuffer :: "string \<Rightarrow> 32 word"
  hashFolder :: "32 word list \<Rightarrow> 32 word"
  variants :: "(string \<Rightarrow> bool) list"

definition to_lower :: "char \<Rightarrow> char" where
  "to_lower c =
     (case map_of (zip ''ABCDEFGHIJKLMNOPQRSTUVWXYZ'' ''abcdefghijklmnopqrstuvwxyz'') c of
        Some l \<Rightarrow> l
      | None \<Rightarrow> c)"

definition file_name :: "string \<Rightarrow> string" where
  "file_name p = rev (takeWhile (\<lambda>c. c \<noteq> CHR ''/'' \<and> c \<noteq> CHR 0x5C) (rev p))"

definition extension :: "string \<Rightarrow> string" where
  "extension p =
     (let n = file_name p
      in if CHR ''.'' \<in> set n then map to_lower (rev (takeWhile (\<lambda>c. c \<noteq> CHR ''.'') (rev n))) else [])"

definition is_content :: "hashing_scheme \<Rightarrow> folder_file \<Rightarrow> bool" where
  "is_content sc f \<longleftrightarrow> extension (rel_path f) \<in> set (map (map to_lower) (allow_list sc))"

text \<open>Step 3: an unreadable ContentFile aborts the folder's scan with an I/O error.\<close>

fun fingerprint_files :: "hashing_scheme \<Rightarrow> folder_file list \<Rightarrow> scan_error + file_fingerprint list" where
  "fingerprint_files sc [] = Inr []"
| "fingerprint_files sc (f # fs) =
     (case bytes f of
        None \<Rightarrow> Inl IoError
      | Some b \<Rightarrow>
          (case fingerprint_files sc fs of
             Inl e \<Rightarrow> Inl e
           | Inr fps \<Rightarrow> Inr ((rel_path f, hashBuffer sc (normalize_text sc (extension (rel_path f)) b)) # fps)))"

text \<open>Steps 4 and 5: the hash of the ascending sequence of the hashes an inclusion filter keeps.\<close>

definition folder_fingerprint :: "hashing_scheme \<Rightarrow> (string \<Rightarrow> bool) \<Rightarrow> file_fingerprint list \<Rightarrow> 32 word" where
  "folder_fingerprint sc keep fps = hashFolder sc (sort (map snd (filter (\<lambda>fp. keep (fst fp)) fps)))"

definition scanFolder ::
  "hashing_scheme \<Rightarrow> (path \<Rightarrow> folder_file list \<Rightarrow> scan_error + toc_descriptor option)
   \<Rightarrow> (path \<Rightarrow> folder_file list option) \<Rightarrow> path \<Rightarrow> scan_error + catalog_scan_result" where
  "scanFolder sc read_toc fs p =
     (case fs p of
        None \<Rightarrow> Inl NotFound
      | Some files \<Rightarrow>
          (case fingerprint_files sc (filter (is_content sc) files) of
             Inl e \<Rightarrow> Inl e
           | Inr fps \<Rightarrow>
               (case read_toc p files of
                  Inl e \<Rightarrow> Inl e
                | Inr descriptor \<Rightarrow>
                    Inr \<lparr>folder = p,
                         fingerprint = folder_fingerprint sc (\<lambda>_. True) fps,
                         alternates = map (\<lambda>keep. folder_fingerprint sc keep fps) (variants sc),
                         toc = descriptor,
                         file_fingerprints = fps\<rparr>)))"

text \<open>The allow-list-filtered content of a folder: each ContentFile's path and bytes.\<close>

definition content_view :: "hashing_scheme \<Rightarrow> folder_file list \<Rightarrow> (string \<times> string option) list" where
  "content_view sc files = map (\<lambda>f. (rel_path f, bytes f)) (filter (is_content sc) files)"

section \<open>Example inputs\<close>

definition ex_scan :: "path \<Rightarrow> (scan_error, nat) settled" where
  "ex_scan p = (if p = ''A'' then Inl IoError else if p = ''N'' then Inl NotFound else Inr (length p))"

definition ex_access :: "path \<Rightarrow> fs_error option" where
  "ex_access p =
     (if p = ''/missing'' then Some \<lparr>code = Some ''ENOENT'', message = ''no such file or directory''\<rparr>
      else if p = ''/locked'' then Some \<lparr>code = Some ''EACCES'', message = ''permission denied''\<rparr>
      else None)"

definition ex_scheme :: hashing_scheme where
  "ex_scheme =
     \<lparr>allow_list = [''lua'', ''xml''],
      normalize_text = (\<lambda>ext b. filter (\<lambda>c. c \<noteq> CHR '' '' \<and> c \<noteq> CHR 0x0A) b),
      hashBuffer = (\<lambda>b. of_nat (length b)),
      hashFolder = (\<lambda>hs. foldl (\<lambda>h x. 31 * h + x) 7 hs),
      variants = [\<lambda>p. extension p \<noteq> ''xml'']\<rparr>"

definition ex_read_toc :: "path \<Rightarrow> folder_file list \<Rightarrow> scan_error + toc_descriptor option" where
  "ex_read_toc p files = Inr None"

definition ex_files :: "folder_file list" where
  "ex_files =
     [\<lparr>rel_path = ''Foo.lua'', bytes = Some ''local x = 1'', mtime = 10\<rparr>,
      \<lparr>rel_path = ''UI/Frame.XML'', bytes = Some ''<Ui/>'', mtime = 11\<rparr>]"

definition ex_files_touched :: "folder_file list" where
  "ex_files_touched =
     [\<lparr>rel_path = ''logo.png'', bytes = None, mtime = 5\<rparr>,
      \<lparr>rel_path = ''Foo.lua'', bytes = Some ''local x = 1'', mtime = 77\<rparr>,
      \<lparr>rel_path = ''UI/Frame.XML'', bytes = Some ''<Ui/>'', mtime = 78\<rparr>]"

section \<open>Properties of the limiter and of Promise.all\<close>

subsection \<open>Every submitted task is accounted for\<close>

lemma mset_map_remove1:
  "t \<in> set ts \<Longrightarrow> add_mset (f t) (mset (map f (remove1 t ts))) = mset (map f ts)"
  by (induction ts) auto

lemma limit_accounted:
  "accounted scan (limit t s) = add_mset (outcome scan t) (accounted scan s)"
  by (simp add: accounted_def limit_def)

lemma start_check_accounted:
  "accounted scan (start_check s) = accounted scan s"
  by (cases "queue s") (simp_all add: accounted_def start_check_def dequeue_def)

lemma settle_accounted:
  assumes "t \<in> set (active s)"
  shows "accounted scan (settle scan t s) = accounted scan s"
  using mset_map_remove1 [OF assms, of "outcome scan"]
  by (cases "queue s") (simp_all add: accounted_def settle_def dequeue_def Let_def)

lemma submit_nonempty: "submit ts s \<noteq> []"
  by (cases ts) auto

lemma drain_nonempty: "drain scan sched s \<noteq> []"
  by (simp add: drain.simps [of scan sched s])

lemma start_checks_nonempty: "start_checks n s \<noteq> []"
  by (cases n) auto

lemma submit_accounted:
  "accounted scan (last (submit ts s)) = mset (map (outcome scan) ts) + accounted scan s"
  by (induction ts arbitrary: s) (simp_all add: submit_nonempty limit_accounted)

lemma start_checks_accounted:
  "accounted scan (last (start_checks n s)) = accounted scan s"
  by (induction n arbitrary: s) (simp_all add: start_checks_nonempty start_check_accounted)

lemma drain_accounted:
  "accounted scan (last (drain scan sched s)) = accounted scan s"
proof (induction scan sched s rule: drain.induct)
  case (1 scan sched s)
  show ?case
  proof (cases "active s = []")
    case True
    then show ?thesis by (simp add: drain.simps [of scan sched s])
  next
    case False
    then have "pick sched (active s) \<in> set (active s)"
      by (simp add: pick_def split: list.split)
    with "1.IH" [OF False] False show ?thesis
      by (simp add: drain.simps [of scan sched s] drain_nonempty settle_accounted)
  qed
qed

lemma drain_last_idle: "active (last (drain scan sched s)) = []"
proof (induction scan sched s rule: drain.induct)
  case (1 scan sched s)
  then show ?case
    by (cases "active s = []") (simp_all add: drain.simps [of scan sched s] drain_nonempty)
qed

subsection \<open>The limiter's invariant\<close>

lemma submit_active: "s' \<in> set (submit ts s) \<Longrightarrow> active s' = active s"
  by (induction ts arbitrary: s) (auto simp: limit_def)

lemma submit_queue: "length (queue (last (submit ts s))) = length (queue s) + length ts"
  by (induction ts arbitrary: s) (simp_all add: submit_nonempty limit_def)

lemma start_check_bound:
  "length (active s) \<le> concurrency \<Longrightarrow> length (active (start_check s)) \<le> concurrency"
  by (cases "queue s") (simp_all add: start_check_def dequeue_def)

lemma start_checks_bound:
  assumes "length (active s) \<le> concurrency" "s' \<in> set (start_checks n s)"
  shows "length (active s') \<le> concurrency"
  using assms
proof (induction n arbitrary: s)
  case 0
  then show ?case by simp
next
  case (Suc n)
  then show ?case
    using start_check_bound [of s] by auto
qed

lemma start_check_full:
  "queue s \<noteq> [] \<longrightarrow> length (active s) = concurrency \<Longrightarrow> start_check s = s"
  by (auto simp: start_check_def)

lemma start_checks_full:
  "queue s \<noteq> [] \<longrightarrow> length (active s) = concurrency \<Longrightarrow> last (start_checks n s) = s"
  by (induction n) (simp_all add: start_checks_nonempty start_check_full)

text \<open>One check per enqueued task is enough to fill the free slots.\<close>

lemma start_checks_fill:
  assumes "length (queue s) \<le> n" "length (active s) \<le> concurrency"
  shows "queue (last (start_checks n s)) \<noteq> []
         \<longrightarrow> length (active (last (start_checks n s))) = concurrency"
  using assms
proof (induction n arbitrary: s)
  case 0
  then show ?case by simp
next
  case (Suc n)
  show ?case
  proof (cases "length (active s) < concurrency \<and> queue s \<noteq> []")
    case True
    then obtain t q where q: "queue s = t # q"
      by (cases "queue s") auto
    with True have step: "start_check s = s\<lparr>queue := q, active := active s @ [t]\<rparr>"
      by (simp add: start_check_def dequeue_def)
    have "length (queue (start_check s)) \<le> n" "length (active (start_check s)) \<le> concurrency"
      using Suc.prems True q by (simp_all add: step)
    from Suc.IH [OF this] show ?thesis
      by (simp add: start_checks_nonempty)
  next
    case False
    with Suc.prems(2) have full: "queue s \<noteq> [] \<longrightarrow> length (active s) = concurrency"
      by auto
    then have "last (start_checks (Suc n) s) = s"
      by (rule start_checks_full)
    with full show ?thesis by simp
  qed
qed

lemma settle_bound:
  assumes "length (active s) \<le> concurrency" "queue s \<noteq> [] \<longrightarrow> length (active s) = concurrency"
    and "t \<in> set (active s)"
  shows "length (active (settle scan t s)) \<le> concurrency
         \<and> (queue (settle scan t s) \<noteq> [] \<longrightarrow> length (active (settle scan t s)) = concurrency)"
proof -
  have "0 < length (active s)"
    using assms(3) by (cases "active s") auto
  then show ?thesis
    using assms by (cases "queue s") (auto simp: settle_def dequeue_def Let_def length_remove1)
qed

lemma drain_bound:
  assumes "length (active s) \<le> concurrency" "queue s \<noteq> [] \<longrightarrow> length (active s) = concurrency"
    and "s' \<in> set (drain scan sched s)"
  shows "length (active s') \<le> concurrency \<and> (queue s' \<noteq> [] \<longrightarrow> length (active s') = concurrency)"
  using assms
proof (induction scan sched s rule: drain.induct)
  case (1 scan sched s)
  show ?case
  proof (cases "active s = [] \<or> s' = s")
    case True
    with "1.prems" show ?thesis
      by (auto simp: drain.simps [of scan sched s])
  next
    case False
    then have running: "active s \<noteq> []" and "s' \<noteq> s" by auto
    with "1.prems"(3) have in_rest: "s' \<in> set (drain scan (tl sched) (settle scan (pick sched (active s)) s))"
      by (simp add: drain.simps [of scan sched s])
    have "pick sched (active s) \<in> set (active s)"
      using running by (simp add: pick_def split: list.split)
    from settle_bound [OF "1.prems"(1,2) this, of scan] "1.IH" [OF running _ _ in_rest]
    show ?thesis by blast
  qed
qed

lemma last_submit_in: "last (submit ts s) \<in> set (submit ts s)"
  by (induction ts arbitrary: s) auto

lemma started_bound:
  fixes st :: "('e, 'r) batch"
  assumes "st = started filePaths"
  shows "length (active st) \<le> concurrency \<and> (queue st \<noteq> [] \<longrightarrow> length (active st) = concurrency)"
proof -
  define init :: "('e, 'r) batch" where "init = \<lparr>queue = [], active = [], settled = []\<rparr>"
  define tasks where "tasks = zip [0..<length filePaths] filePaths"
  define sub where "sub = last (submit tasks init)"
  have st: "st = last (start_checks (length tasks) sub)"
    by (simp add: assms started_def Let_def sub_def tasks_def init_def)
  have "active sub = active init"
    unfolding sub_def by (rule submit_active) (rule last_submit_in)
  then have idle: "length (active sub) \<le> concurrency"
    by (simp add: init_def)
  have "length (queue sub) \<le> length tasks"
    by (simp add: sub_def submit_queue init_def)
  from start_checks_fill [OF this idle]
    start_checks_bound [OF idle last_in_set [OF start_checks_nonempty], of "length tasks"]
  show ?thesis
    by (simp add: st)
qed

lemma running_trace_bound:
  assumes "s \<in> set (running_trace scan sched filePaths)"
  shows "length (active s) \<le> concurrency \<and> (queue s \<noteq> [] \<longrightarrow> length (active s) = concurrency)"
proof -
  define st :: "('a, 'b) batch" where "st = started filePaths"
  from started_bound [OF st_def]
  have "length (active st) \<le> concurrency" "queue st \<noteq> [] \<longrightarrow> length (active st) = concurrency"
    by simp_all
  moreover from assms have "s \<in> set (drain scan sched st)"
    by (simp add: running_trace_def st_def)
  ultimately show ?thesis
    by (rule drain_bound)
qed



subsection \<open>The final state and the handlers' outcome\<close>

lemma last_scan_trace:
  "last (scan_trace scan sched filePaths) = last (running_trace scan sched filePaths)"
  by (simp add: scan_trace_def running_trace_def drain_nonempty)

lemma started_accounted:
  "accounted scan (started filePaths) = mset (map (outcome scan) (zip [0..<length filePaths] filePaths))"
  by (simp add: started_def Let_def start_checks_accounted submit_accounted) (simp add: accounted_def)

lemma final_settled:
  "mset (settled (last (scan_trace scan sched filePaths)))
   = mset (map (outcome scan) (zip [0..<length filePaths] filePaths))"
proof -
  define fin where "fin = last (running_trace scan sched filePaths)"
  have fin_last: "last (scan_trace scan sched filePaths) = fin"
    by (simp add: last_scan_trace fin_def)
  have "fin \<in> set (running_trace scan sched filePaths)"
    by (simp add: fin_def running_trace_def drain_nonempty)
  then have "queue fin \<noteq> [] \<longrightarrow> length (active fin) = concurrency"
    using running_trace_bound by blast
  moreover have idle: "active fin = []"
    by (simp add: fin_def running_trace_def drain_last_idle)
  ultimately have "queue fin = []"
    by (auto simp: concurrency_def)
  with idle have "accounted scan fin = mset (settled fin)"
    by (simp add: accounted_def)
  moreover have "accounted scan fin = mset (map (outcome scan) (zip [0..<length filePaths] filePaths))"
    by (simp add: fin_def running_trace_def drain_accounted started_accounted)
  ultimately show ?thesis
    by (simp add: fin_last)
qed

lemma first_rejection_None:
  "first_rejection outcomes = None \<longleftrightarrow> (\<forall>x \<in> set outcomes. \<exists>r. snd x = Inr r)"
  by (induction outcomes rule: first_rejection.induct) auto

lemma first_rejection_Some:
  "first_rejection outcomes = Some e \<Longrightarrow> \<exists>i. (i, Inl e) \<in> set outcomes"
  by (induction outcomes rule: first_rejection.induct) auto

lemma those_map_Some:
  "(\<And>x. x \<in> set xs \<Longrightarrow> f x = Some (g x)) \<Longrightarrow> those (map f xs) = Some (map g xs)"
  by (induction xs) auto

lemma outcomes_by_index:
  "map (outcome scan) (zip [0..<length filePaths] filePaths)
   = map (\<lambda>i. (i, scan (filePaths ! i))) [0..<length filePaths]"
  by (rule nth_equalityI) (simp_all add: outcome_def)

lemma set_final_settled:
  "set (settled (last (scan_trace scan sched filePaths)))
   = (\<lambda>i. (i, scan (filePaths ! i))) ` {..<length filePaths}"
proof -
  have "set (settled (last (scan_trace scan sched filePaths)))
        = set (map (outcome scan) (zip [0..<length filePaths] filePaths))"
    using final_settled [of scan sched filePaths] by (metis set_mset_mset)
  then show ?thesis
    by (simp add: outcomes_by_index atLeast0LessThan)
qed

lemma distinct_final_settled:
  "distinct (map fst (settled (last (scan_trace scan sched filePaths))))"
proof -
  have "mset (map fst (settled (last (scan_trace scan sched filePaths))))
        = mset (map fst (map (outcome scan) (zip [0..<length filePaths] filePaths)))"
    using final_settled [of scan sched filePaths] by (metis mset_map)
  also have "map fst (map (outcome scan) (zip [0..<length filePaths] filePaths)) = [0..<length filePaths]"
    by (simp add: outcomes_by_index comp_def)
  finally show ?thesis
    by (metis distinct_upt mset_eq_imp_distinct_iff)
qed

lemma final_lookup:
  assumes "i < length filePaths"
  shows "map_of (settled (last (scan_trace scan sched filePaths))) i = Some (scan (filePaths ! i))"
  using assms by (simp add: distinct_final_settled set_final_settled)

lemma all_fulfilled:
  assumes "\<And>p. p \<in> set filePaths \<Longrightarrow> \<exists>r. scan p = Inr r"
  shows "get_scan_results scan sched filePaths = Some (Inr (map (\<lambda>p. projr (scan p)) filePaths))"
proof -
  let ?fin = "settled (last (scan_trace scan sched filePaths))"
  have "first_rejection ?fin = None"
    using assms by (auto simp: first_rejection_None set_final_settled)
  moreover have "those (map (fulfilled_value ?fin) [0..<length filePaths])
                 = Some (map (\<lambda>i. projr (scan (filePaths ! i))) [0..<length filePaths])"
  proof (rule those_map_Some)
    fix i assume "i \<in> set [0..<length filePaths]"
    then have i: "i < length filePaths" by simp
    then obtain r where "scan (filePaths ! i) = Inr r"
      using assms [of "filePaths ! i"] by auto
    with i show "fulfilled_value ?fin i = Some (projr (scan (filePaths ! i)))"
      by (simp add: fulfilled_value_def final_lookup)
  qed
  moreover have "map (\<lambda>i. projr (scan (filePaths ! i))) [0..<length filePaths]
                 = map (\<lambda>p. projr (scan p)) filePaths"
    by (rule nth_equalityI) simp_all
  ultimately show ?thesis
    by (simp add: get_scan_results_def promise_all_def)
qed

lemma some_rejected:
  assumes "p \<in> set filePaths" "scan p = Inl e"
  shows "\<exists>e' i. i < length filePaths \<and> scan (filePaths ! i) = Inl e'
                \<and> first_rejection (settled (last (scan_trace scan sched filePaths))) = Some e'
                \<and> get_scan_results scan sched filePaths = Some (Inl e')"
proof -
  let ?fin = "settled (last (scan_trace scan sched filePaths))"
  from assms obtain j where "j < length filePaths" "scan (filePaths ! j) = Inl e"
    by (metis in_set_conv_nth)
  then have "(j, Inl e) \<in> set ?fin"
    by (auto simp: set_final_settled)
  then have "\<not> (\<forall>x \<in> set ?fin. \<exists>r. snd x = Inr r)"
    by (metis Inl_Inr_False snd_conv)
  then have "first_rejection ?fin \<noteq> None"
    by (simp only: first_rejection_None not_False_eq_True)
  then obtain e' where first: "first_rejection ?fin = Some e'"
    by auto
  then obtain i where "(i, Inl e') \<in> set ?fin"
    by (auto dest: first_rejection_Some)
  then have "i < length filePaths" "scan (filePaths ! i) = Inl e'"
    by (auto simp: set_final_settled)
  with first show ?thesis
    by (auto simp: get_scan_results_def promise_all_def)
qed

section \<open>The claims about the handlers\<close>

lemmas run_simps = get_scan_results_def scan_trace_def startup_trace_def started_def running_trace_def
      start_check_def promise_all_def limit_def dequeue_def concurrency_def
      drain.simps settle_def pick_def Let_def upt_rec fulfilled_value_def outcome_def
      wowup_get_scan_results_def curse_get_scan_results_def

text \<open>
  Claim C10. The path-existence handler never rejects: for every probe and every path it
  fulfils, with \<open>true\<close> when the access probe succeeds and with \<open>false\<close> when the
  probe fails with any error at all (a permission error as much as a missing file).
\<close>

theorem path_exists_never_rejects:
  "fst (path_exists access filePath) = Inr (access filePath = None)"
  by (simp add: path_exists_def split: option.split)

text \<open>
  At a concrete probe: a path that fails with \<open>EACCES\<close>, one that fails with
  \<open>ENOENT\<close>, and an accessible one.
\<close>

theorem path_exists_never_rejects_witness:
  "fst (path_exists ex_access ''/locked'') = Inr False
   \<and> fst (path_exists ex_access ''/missing'') = Inr False
   \<and> fst (path_exists ex_access ''/games'') = Inr True"
  using path_exists_never_rejects [of ex_access "''/locked''"]
    path_exists_never_rejects [of ex_access "''/missing''"]
    path_exists_never_rejects [of ex_access "''/games''"]
  by (simp add: ex_access_def)



text \<open>
  Claim C1, as the handlers have it. Every folder's scan is run and settles with its own
  outcome whatever its siblings do: a failure cancels no sibling scan. But a failure is
  not captured in a slot of its own: when some folder's scan fails, both handlers
  reject as a whole, with the error of the first folder whose scan failed, in the order
  the scans completed, and return no sibling's result.
\<close>

theorem failure_rejects_batch:
  "mset (settled (last (scan_trace scan sched filePaths)))
     = mset (map (outcome scan) (zip [0..<length filePaths] filePaths))
   \<and> (p \<in> set filePaths \<and> scan p = Inl e \<longrightarrow>
        (\<exists>e' q. q \<in> set filePaths \<and> scan q = Inl e'
           \<and> first_rejection (settled (last (scan_trace scan sched filePaths))) = Some e'
           \<and> wowup_get_scan_results scan sched filePaths = Some (Inl e')
           \<and> curse_get_scan_results scan sched filePaths
               = (Some (Inl e'), [(''Failed during curse scan'', e')])))"
proof (intro conjI impI)
  show "mset (settled (last (scan_trace scan sched filePaths)))
     = mset (map (outcome scan) (zip [0..<length filePaths] filePaths))"
    by (rule final_settled)
next
  assume "p \<in> set filePaths \<and> scan p = Inl e"
  then obtain e' i where "i < length filePaths" "scan (filePaths ! i) = Inl e'"
      "first_rejection (settled (last (scan_trace scan sched filePaths))) = Some e'"
      "get_scan_results scan sched filePaths = Some (Inl e')"
    using some_rejected [of p filePaths scan e sched] by blast
  then show "\<exists>e' q. q \<in> set filePaths \<and> scan q = Inl e'
           \<and> first_rejection (settled (last (scan_trace scan sched filePaths))) = Some e'
           \<and> wowup_get_scan_results scan sched filePaths = Some (Inl e')
           \<and> curse_get_scan_results scan sched filePaths
               = (Some (Inl e'), [(''Failed during curse scan'', e')])"
    by (intro exI [of _ e'] exI [of _ "filePaths ! i"])
       (simp add: wowup_get_scan_results_def curse_get_scan_results_def)
qed

text \<open>Three folders, the second missing.\<close>

theorem failure_rejects_batch_witness:
  "''N'' \<in> set [''B'', ''N'', ''C'']
   \<and> ex_scan ''N'' = Inl NotFound
   \<and> mset (settled (last (scan_trace ex_scan [1] [''B'', ''N'', ''C''])))
       = {#(0, Inr 1), (1, Inl NotFound), (2, Inr 1)#}
   \<and> (\<exists>e' q. q \<in> set [''B'', ''N'', ''C''] \<and> ex_scan q = Inl e'
         \<and> first_rejection (settled (last (scan_trace ex_scan [1] [''B'', ''N'', ''C'']))) = Some e'
         \<and> wowup_get_scan_results ex_scan [1] [''B'', ''N'', ''C''] = Some (Inl e')
         \<and> curse_get_scan_results ex_scan [1] [''B'', ''N'', ''C'']
             = (Some (Inl e'), [(''Failed during curse scan'', e')]))"
proof -
  have hyp: "''N'' \<in> set [''B'', ''N'', ''C''] \<and> ex_scan ''N'' = Inl NotFound"
    by (simp add: ex_scan_def)
  have out: "map (outcome ex_scan) (zip [0..<length [''B'', ''N'', ''C'']] [''B'', ''N'', ''C''])
             = [(0, Inr 1), (1, Inl NotFound), (2, Inr 1)]"
    by (simp add: outcome_def ex_scan_def upt_rec)
  from failure_rejects_batch [of ex_scan "[1]" "[''B'', ''N'', ''C'']" "''N''" NotFound] hyp out
  show ?thesis by simp
qed

text \<open>
  Claim C1 as stated fails: folder \<open>A\<close> cannot be read, folder \<open>B\<close> scans fine, and
  both handlers reject the whole batch with \<open>A\<close>'s error; \<open>B\<close>'s result is not returned.
\<close>

theorem batch_rejects_counterexample:
  "ex_scan ''B'' = Inr 1
   \<and> wowup_get_scan_results ex_scan [] [''A'', ''B''] = Some (Inl IoError)
   \<and> curse_get_scan_results ex_scan [] [''A'', ''B''] = (Some (Inl IoError), [(''Failed during curse scan'', IoError)])"
  by (simp add: run_simps ex_scan_def)

text \<open>
  Claim C2, as the handlers have it. When every folder's scan succeeds, both handlers
  return a sequence as long as the input whose element at position \<open>i\<close> is the result
  of scanning the path at position \<open>i\<close>, in whatever order the scans completed. When
  some folder's scan fails they return no sequence: the call is rejected.
\<close>

theorem results_in_input_order:
  "((\<forall>p \<in> set filePaths. \<exists>r. scan p = Inr r) \<longrightarrow>
      (\<exists>rs. wowup_get_scan_results scan sched filePaths = Some (Inr rs)
         \<and> curse_get_scan_results scan sched filePaths = (Some (Inr rs), [])
         \<and> length rs = length filePaths
         \<and> (\<forall>i < length filePaths. scan (filePaths ! i) = Inr (rs ! i))))
   \<and> ((\<exists>p \<in> set filePaths. \<exists>e. scan p = Inl e) \<longrightarrow>
      (\<exists>e. wowup_get_scan_results scan sched filePaths = Some (Inl e)
         \<and> fst (curse_get_scan_results scan sched filePaths) = Some (Inl e)))"
proof (intro conjI impI)
  assume ok: "\<forall>p \<in> set filePaths. \<exists>r. scan p = Inr r"
  then have res: "get_scan_results scan sched filePaths = Some (Inr (map (\<lambda>p. projr (scan p)) filePaths))"
    by (intro all_fulfilled) blast
  have "\<forall>i < length filePaths. scan (filePaths ! i) = Inr (map (\<lambda>p. projr (scan p)) filePaths ! i)"
  proof (intro allI impI)
    fix i assume i: "i < length filePaths"
    then obtain r where "scan (filePaths ! i) = Inr r"
      using ok nth_mem by blast
    with i show "scan (filePaths ! i) = Inr (map (\<lambda>p. projr (scan p)) filePaths ! i)"
      by simp
  qed
  with res show "\<exists>rs. wowup_get_scan_results scan sched filePaths = Some (Inr rs)
         \<and> curse_get_scan_results scan sched filePaths = (Some (Inr rs), [])
         \<and> length rs = length filePaths
         \<and> (\<forall>i < length filePaths. scan (filePaths ! i) = Inr (rs ! i))"
    by (intro exI [of _ "map (\<lambda>p. projr (scan p)) filePaths"])
       (simp add: wowup_get_scan_results_def curse_get_scan_results_def)
next
  assume "\<exists>p \<in> set filePaths. \<exists>e. scan p = Inl e"
  then obtain p e where "p \<in> set filePaths" "scan p = Inl e" by blast
  then obtain e' where "get_scan_results scan sched filePaths = Some (Inl e')"
    using some_rejected [of p filePaths scan e sched] by blast
  then show "\<exists>e. wowup_get_scan_results scan sched filePaths = Some (Inl e)
         \<and> fst (curse_get_scan_results scan sched filePaths) = Some (Inl e)"
    by (simp add: wowup_get_scan_results_def curse_get_scan_results_def)
qed

text \<open>Four folders that scan fine, completing out of input order.\<close>

theorem results_in_input_order_witness:
  "list_all (\<lambda>p. \<exists>r. ex_scan p = Inr r) [''X'', ''B'', ''CC'', ''DDD'']
   \<and> wowup_get_scan_results ex_scan [1, 1, 1] [''X'', ''B'', ''CC'', ''DDD''] = Some (Inr [1, 1, 2, 3])
   \<and> curse_get_scan_results ex_scan [1, 1, 1] [''X'', ''B'', ''CC'', ''DDD''] = (Some (Inr [1, 1, 2, 3]), [])"
proof -
  have ok: "\<forall>p \<in> set [''X'', ''B'', ''CC'', ''DDD'']. \<exists>r. ex_scan p = Inr r"
    by (simp add: ex_scan_def)
  with results_in_input_order [of "[''X'', ''B'', ''CC'', ''DDD'']" ex_scan "[1, 1, 1]"]
  obtain rs where rs: "wowup_get_scan_results ex_scan [1, 1, 1] [''X'', ''B'', ''CC'', ''DDD''] = Some (Inr rs)"
      "curse_get_scan_results ex_scan [1, 1, 1] [''X'', ''B'', ''CC'', ''DDD''] = (Some (Inr rs), [])"
      "length rs = 4"
      "\<forall>i < 4. ex_scan ([''X'', ''B'', ''CC'', ''DDD''] ! i) = Inr (rs ! i)"
    by auto
  from rs(3) obtain a b c d where abcd: "rs = [a, b, c, d]"
    by (auto simp: length_Suc_conv eval_nat_numeral)
  have "ex_scan ''X'' = Inr (rs ! 0)" "ex_scan ''B'' = Inr (rs ! 1)"
      "ex_scan ''CC'' = Inr (rs ! 2)" "ex_scan ''DDD'' = Inr (rs ! 3)"
    using rs(4) [rule_format, of 0] rs(4) [rule_format, of 1]
      rs(4) [rule_format, of 2] rs(4) [rule_format, of 3]
    by simp_all
  then have "rs = [1, 1, 2, 3]"
    by (simp add: abcd ex_scan_def)
  with rs ok show ?thesis
    by (simp add: list_all_iff)
qed

text \<open>
  Claim C2 as stated fails: for three input paths, one of them missing, the handlers
  return no sequence of three outcomes but a single rejection.
\<close>

theorem no_sequence_counterexample:
  "wowup_get_scan_results ex_scan [1] [''B'', ''N'', ''C''] = Some (Inl NotFound)
   \<and> fst (curse_get_scan_results ex_scan [1] [''B'', ''N'', ''C'']) = Some (Inl NotFound)"
  by (simp add: run_simps ex_scan_def)

section \<open>The claims about the catalog fingerprint\<close>

lemma sort_mset_cong: "mset xs = mset ys \<Longrightarrow> sort xs = sort ys"
  by (metis mset_sort properties_for_sort sorted_sort)

lemma fingerprint_files_view:
  "map (\<lambda>f. (rel_path f, bytes f)) fs = map (\<lambda>f. (rel_path f, bytes f)) fs'
   \<Longrightarrow> fingerprint_files sc fs = fingerprint_files sc fs'"
proof (induction fs arbitrary: fs')
  case Nil
  then show ?case by simp
next
  case (Cons f fs)
  then obtain g gs where fs': "fs' = g # gs"
    by (cases fs') auto
  with Cons.prems have "rel_path f = rel_path g" "bytes f = bytes g"
      "map (\<lambda>f. (rel_path f, bytes f)) fs = map (\<lambda>f. (rel_path f, bytes f)) gs"
    by simp_all
  with Cons.IH [of gs] show ?case
    by (simp add: fs' split: option.split sum.split)
qed

lemma fingerprint_files_mset:
  "fingerprint_files sc fs = Inr fps
   \<Longrightarrow> mset fps = image_mset (\<lambda>f. (rel_path f, hashBuffer sc (normalize_text sc (extension (rel_path f)) (the (bytes f))))) (mset fs)"
  by (induction fs arbitrary: fps) (auto split: option.splits sum.splits)

lemma folder_fingerprint_mset:
  assumes "mset fps = mset fps'"
  shows "folder_fingerprint sc keep fps = folder_fingerprint sc keep fps'"
proof -
  have "mset (map snd (filter (\<lambda>fp. keep (fst fp)) fps))
        = mset (map snd (filter (\<lambda>fp. keep (fst fp)) fps'))"
    using assms by simp
  then have "sort (map snd (filter (\<lambda>fp. keep (fst fp)) fps))
             = sort (map snd (filter (\<lambda>fp. keep (fst fp)) fps'))"
    by (rule sort_mset_cong)
  then show ?thesis
    by (simp add: folder_fingerprint_def)
qed

lemma scanFolder_Inr:
  assumes "scanFolder sc read_toc fs p = Inr r" "fs p = Some files"
  shows "fingerprint_files sc (filter (is_content sc) files) = Inr (file_fingerprints r)
         \<and> fingerprint r = folder_fingerprint sc (\<lambda>_. True) (file_fingerprints r)
         \<and> alternates r = map (\<lambda>keep. folder_fingerprint sc keep (file_fingerprints r)) (variants sc)"
  using assms by (auto simp: scanFolder_def split: sum.splits)

text \<open>
  Claim C3. The FolderFingerprint is a function of the folder's allow-list-filtered
  content alone: two catalog scans of folders whose ContentFiles have the same paths and
  bytes, in the same order, yield the same primary and alternate fingerprints and the
  same FileFingerprints, whatever the files' timestamps, whatever other files the
  folders hold, wherever the folders are and whatever their descriptors. A scan is a
  function of its inputs, so two runs over fixed content are such a pair.
\<close>

theorem fingerprint_of_filtered_content:
  assumes "content_view sc files = content_view sc files'"
    and "fs p = Some files" "fs' p' = Some files'"
    and "scanFolder sc read_toc fs p = Inr r" "scanFolder sc read_toc' fs' p' = Inr r'"
  shows "fingerprint r = fingerprint r' \<and> alternates r = alternates r'
         \<and> file_fingerprints r = file_fingerprints r'"
proof -
  have "fingerprint_files sc (filter (is_content sc) files)
        = fingerprint_files sc (filter (is_content sc) files')"
    using assms(1) by (intro fingerprint_files_view) (simp add: content_view_def)
  with scanFolder_Inr [OF assms(4,2)] scanFolder_Inr [OF assms(5,3)]
  show ?thesis by simp
qed

text \<open>
  The same two ContentFiles, later touched and joined by an unreadable image that the
  allow-list leaves out.
\<close>

theorem fingerprint_of_filtered_content_witness:
  "content_view ex_scheme ex_files = content_view ex_scheme ex_files_touched
   \<and> map mtime ex_files \<noteq> map mtime (filter (is_content ex_scheme) ex_files_touched)
   \<and> scanFolder ex_scheme ex_read_toc (\<lambda>_. Some ex_files) ''Foo''
       = Inr \<lparr>folder = ''Foo'', fingerprint = 6890, alternates = [225], toc = None,
              file_fingerprints = [(''Foo.lua'', 8), (''UI/Frame.XML'', 5)]\<rparr>
   \<and> fingerprint (projr (scanFolder ex_scheme ex_read_toc (\<lambda>_. Some ex_files_touched) ''Bar'')) = 6890"
proof -
  let ?r = "\<lparr>folder = ''Foo'', fingerprint = 6890, alternates = [225], toc = None,
              file_fingerprints = [(''Foo.lua'', 8), (''UI/Frame.XML'', 5)]\<rparr>"
  let ?r' = "\<lparr>folder = ''Bar'', fingerprint = 6890, alternates = [225], toc = None,
              file_fingerprints = [(''Foo.lua'', 8), (''UI/Frame.XML'', 5)]\<rparr>"
  have view: "content_view ex_scheme ex_files = content_view ex_scheme ex_files_touched"
    by code_simp
  have times: "map mtime ex_files \<noteq> map mtime (filter (is_content ex_scheme) ex_files_touched)"
    by code_simp
  have r: "scanFolder ex_scheme ex_read_toc (\<lambda>_. Some ex_files) ''Foo'' = Inr ?r"
    by code_simp
  have r': "scanFolder ex_scheme ex_read_toc (\<lambda>_. Some ex_files_touched) ''Bar'' = Inr ?r'"
    by code_simp
  from fingerprint_of_filtered_content [OF view _ _ r r']
  have "fingerprint ?r = fingerprint (projr (scanFolder ex_scheme ex_read_toc (\<lambda>_. Some ex_files_touched) ''Bar''))"
    by (simp add: r')
  with view times r show ?thesis
    by simp
qed

text \<open>
  Claim C4. The FolderFingerprint is the folder hash of the ascending sequence of the
  folder's FileFingerprint hashes, so two scans that enumerate the same files in
  different orders yield the same primary and alternate fingerprints.
\<close>

theorem fingerprint_order_independent:
  assumes "mset files = mset files'"
    and "fs p = Some files" "fs' p' = Some files'"
    and "scanFolder sc read_toc fs p = Inr r" "scanFolder sc read_toc' fs' p' = Inr r'"
  shows "fingerprint r = hashFolder sc (sort (map snd (file_fingerprints r)))
         \<and> fingerprint r = fingerprint r' \<and> alternates r = alternates r'"
proof -
  note r = scanFolder_Inr [OF assms(4,2)] and r' = scanFolder_Inr [OF assms(5,3)]
  let ?fp = "\<lambda>f. (rel_path f, hashBuffer sc (normalize_text sc (extension (rel_path f)) (the (bytes f))))"
  have "mset (file_fingerprints r) = image_mset ?fp (mset (filter (is_content sc) files))"
    using r by (intro fingerprint_files_mset) simp
  moreover have "mset (file_fingerprints r') = image_mset ?fp (mset (filter (is_content sc) files'))"
    using r' by (intro fingerprint_files_mset) simp
  moreover have "mset (filter (is_content sc) files) = mset (filter (is_content sc) files')"
    using assms(1) by simp
  ultimately have "mset (file_fingerprints r) = mset (file_fingerprints r')"
    by simp
  then have eq: "folder_fingerprint sc keep (file_fingerprints r)
                 = folder_fingerprint sc keep (file_fingerprints r')" for keep
    by (rule folder_fingerprint_mset)
  have "fingerprint r = hashFolder sc (sort (map snd (file_fingerprints r)))"
    using r by (simp add: folder_fingerprint_def)
  moreover have "fingerprint r = fingerprint r'" "alternates r = alternates r'"
    using r r' by (simp_all add: eq)
  ultimately show ?thesis
    by simp
qed

text \<open>A folder enumerated in both orders of its two files.\<close>

theorem fingerprint_order_independent_witness:
  "mset ex_files = mset (rev ex_files)
   \<and> ex_files \<noteq> rev ex_files
   \<and> scanFolder ex_scheme ex_read_toc (\<lambda>_. Some ex_files) ''Foo''
       = Inr \<lparr>folder = ''Foo'', fingerprint = 6890, alternates = [225], toc = None,
              file_fingerprints = [(''Foo.lua'', 8), (''UI/Frame.XML'', 5)]\<rparr>
   \<and> fingerprint (projr (scanFolder ex_scheme ex_read_toc (\<lambda>_. Some (rev ex_files)) ''Foo'')) = 6890
   \<and> alternates (projr (scanFolder ex_scheme ex_read_toc (\<lambda>_. Some (rev ex_files)) ''Foo'')) = [225]"
proof -
  let ?r = "\<lparr>folder = ''Foo'', fingerprint = 6890, alternates = [225], toc = None,
              file_fingerprints = [(''Foo.lua'', 8), (''UI/Frame.XML'', 5)]\<rparr>"
  let ?r' = "\<lparr>folder = ''Foo'', fingerprint = 6890, alternates = [225], toc = None,
              file_fingerprints = [(''UI/Frame.XML'', 5), (''Foo.lua'', 8)]\<rparr>"
  have perm: "mset ex_files = mset (rev ex_files)"
    by simp
  have differ: "ex_files \<noteq> rev ex_files"
    by (simp add: ex_files_def)
  have r: "scanFolder ex_scheme ex_read_toc (\<lambda>_. Some ex_files) ''Foo'' = Inr ?r"
    by code_simp
  have r': "scanFolder ex_scheme ex_read_toc (\<lambda>_. Some (rev ex_files)) ''Foo'' = Inr ?r'"
    by code_simp
  from fingerprint_order_independent [OF perm _ _ r r']
  have "fingerprint ?r = fingerprint (projr (scanFolder ex_scheme ex_read_toc (\<lambda>_. Some (rev ex_files)) ''Foo''))"
    "alternates ?r = alternates (projr (scanFolder ex_scheme ex_read_toc (\<lambda>_. Some (rev ex_files)) ''Foo''))"
    by (simp_all add: r')
  with perm differ r show ?thesis
    by simp
qed

end
